theory Spec2Isabelle
  imports Complex_Main
begin

section \<open>Python values and exceptions\<close>

text \<open>
  Python integers are unbounded and are modelled by \<^typ>\<open>int\<close>; \<open>//\<close> and \<open>%\<close> on them are
  floor division and floor remainder, which is what \<open>div\<close> and \<open>mod\<close> on \<^typ>\<open>int\<close> compute.
  Every exception the modelled code can raise is a value of the type below, and a
  function that may raise returns \<open>error + 'a\<close> with \<open>Inl\<close> carrying the exception.
\<close>

datatype error = AssertionError | ValueError | ZeroDivisionError | OverflowError | IndexError

subsection \<open>Double-precision floats\<close>

text \<open>
  A Python \<open>float\<close> is an IEEE-754 binary64 number. The floats that occur in the modelled
  code are finite, so a float is represented by the rational number it denotes, and every
  operation that produces a float rounds its exact result to the nearest binary64 value,
  ties to the even significand, as the hardware and CPython's integer division do.
\<close>

definition round_half_even :: "rat \<Rightarrow> int" where
  "round_half_even x =
     (let f = \<lfloor>x\<rfloor>; r = x - of_int f
      in if r < 1 / 2 then f else if 1 / 2 < r then f + 1 else if even f then f else f + 1)"

function bit_length :: "int \<Rightarrow> int" where
  "bit_length n = (if n \<le> 0 then 0 else 1 + bit_length (n div 2))"
  by pat_completeness auto
termination
  by (relation "measure nat") auto

declare bit_length.simps [simp del]

text \<open>The binary exponent \<open>e\<close> of a non-zero rational: \<open>2^e \<le> |q| < 2^(e+1)\<close>.\<close>

definition expo :: "rat \<Rightarrow> int" where
  "expo q =
     (let (a, b) = quotient_of \<bar>q\<bar>;
          d = bit_length a - bit_length b
      in if \<bar>q\<bar> < 2 powi d then d - 1 else d)"

text \<open>
  Rounding to binary64: 53 significant bits in the normal range (exponent at least \<open>-1022\<close>),
  a fixed spacing of \<open>2^-1074\<close> below it (subnormals and zero).
\<close>

definition fl :: "rat \<Rightarrow> rat" where
  "fl q =
     (if q = 0 then 0
      else let u = 2 powi (max (expo q) (- 1022) - 52)
           in of_int (round_half_even (q / u)) * u)"

definition float_max :: rat where
  "float_max = (2 ^ 53 - 1) * 2 ^ 971"

text \<open>\<open>a / b\<close> on two integers: the correctly rounded quotient, or an exception.\<close>

definition int_true_div :: "int \<Rightarrow> int \<Rightarrow> error + rat" where
  "int_true_div a b =
     (if b = 0 then Inl ZeroDivisionError
      else let r = fl (of_int a / of_int b)
           in if float_max < \<bar>r\<bar> then Inl OverflowError else Inr r)"

text \<open>The conversion of an integer operand to a float.\<close>

definition int_to_float :: "int \<Rightarrow> error + rat" where
  "int_to_float n =
     (let r = fl (of_int n) in if float_max < \<bar>r\<bar> then Inl OverflowError else Inr r)"

text \<open>
  \<open>x / n\<close> on a float and an integer. The integer is converted first. The quotient of two
  floats cannot raise on overflow in Python (it would be an infinity); in the modelled code
  the divisor is a positive integer, so the quotient is no larger than the dividend and
  stays finite.
\<close>

definition float_div_int :: "rat \<Rightarrow> int \<Rightarrow> error + rat" where
  "float_div_int x n =
     (case int_to_float n of
        Inl e \<Rightarrow> Inl e
      | Inr y \<Rightarrow> if y = 0 then Inl ZeroDivisionError else Inr (fl (x / y)))"

text \<open>\<open>int(x)\<close> truncates towards zero; \<open>round(x)\<close> rounds half to even.\<close>

definition py_int :: "rat \<Rightarrow> int" where
  "py_int x = (if 0 \<le> x then \<lfloor>x\<rfloor> else \<lceil>x\<rceil>)"

definition py_round :: "rat \<Rightarrow> int" where
  "py_round x = round_half_even x"

section \<open>Batch configuration (vision/cnns/tensorflow2/batch\_config.py)\<close>

text \<open>
  The frozen dataclass after a successful \<open>__post_init__\<close>: the two optional fields
  have both been resolved to integers and the derived field has been set.
\<close>

record BatchConfig =
  micro_batch_size :: int
  num_replicas :: int
  gradient_accumulation_count :: int
  global_batch_size :: int
  num_micro_batches_per_weight_update :: int

text \<open>
  Log records. The warning carries the values its message formats: the requested global
  batch size, the micro batch size, the number of replicas, the float quotient, the rounded
  gradient accumulation count and the new global batch size.
\<close>

datatype log_record =
    Warning_not_divisible int int int rat int int
  | Info_micro_batch_size int
  | Info_global_batch_size int
  | Info_gradient_accumulation int
  | Info_num_replicas int


text \<open>Lines 54 to 61: the derived field and the four info records.\<close>

definition finish_init :: "int \<Rightarrow> int \<Rightarrow> int \<Rightarrow> int \<Rightarrow> log_record list
    \<Rightarrow> error + BatchConfig \<times> log_record list" where
  "finish_init mbs nr gac gbs logs =
     Inr (\<lparr>micro_batch_size = mbs, num_replicas = nr,
           gradient_accumulation_count = gac, global_batch_size = gbs,
           num_micro_batches_per_weight_update = gac * nr\<rparr>,
          logs @ [Info_micro_batch_size mbs, Info_global_batch_size gbs,
                  Info_gradient_accumulation gac, Info_num_replicas nr])"

text \<open>
  Construction: \<open>BatchConfig(micro_batch_size, num_replicas, gradient_accumulation_count,
  global_batch_size)\<close>, the last two optional. The result is the exception raised, or the
  resolved object with the log records emitted on the way.
\<close>

definition post_init :: "int \<Rightarrow> int \<Rightarrow> int option \<Rightarrow> int option
    \<Rightarrow> error + BatchConfig \<times> log_record list" where
  "post_init mbs nr gac_arg gbs_arg =
     (if \<not> 0 < mbs then Inl AssertionError
      else if \<not> 0 < nr then Inl AssertionError
      else case (gac_arg, gbs_arg) of
        (Some _, Some _) \<Rightarrow> Inl ValueError
      | (None, None) \<Rightarrow> Inl ValueError
      | (Some gac, None) \<Rightarrow>
          if \<not> 0 < gac then Inl AssertionError
          else finish_init mbs nr gac (mbs * nr * gac) []
      | (None, Some gbs) \<Rightarrow>
          if \<not> 0 < gbs then Inl AssertionError
          else (case int_true_div gbs mbs of
              Inl e \<Rightarrow> Inl e
            | Inr x \<Rightarrow> (case float_div_int x nr of
                Inl e \<Rightarrow> Inl e
              | Inr q \<Rightarrow>
                  if gbs mod (mbs * nr) = 0
                  then finish_init mbs nr (py_int q) gbs []
                  else let gac = py_round q; gbs' = mbs * nr * gac
                       in finish_init mbs nr gac gbs'
                            [Warning_not_divisible gbs mbs nr q gac gbs'])))"

definition get_num_micro_batches_per_epoch :: "BatchConfig \<Rightarrow> int \<Rightarrow> error + int" where
  "get_num_micro_batches_per_epoch c dataset_size =
     (let d = micro_batch_size c * num_micro_batches_per_weight_update c
      in if d = 0 then Inl ZeroDivisionError
         else Inr (dataset_size div d * num_micro_batches_per_weight_update c))"

definition get_num_discarded_samples :: "BatchConfig \<Rightarrow> int \<Rightarrow> int \<Rightarrow> error + int" where
  "get_num_discarded_samples c dataset_size num_instances =
     (if num_instances = 0 then Inl ZeroDivisionError
      else let instance_batch_size = global_batch_size c div num_instances
           in if instance_batch_size = 0 then Inl ZeroDivisionError
              else Inr (dataset_size mod instance_batch_size))"

definition get_num_padding_samples :: "BatchConfig \<Rightarrow> int \<Rightarrow> int \<Rightarrow> error + int" where
  "get_num_padding_samples c num_discarded_samples num_instances =
     (if num_discarded_samples = 0 then Inr 0
      else if num_instances = 0 then Inl ZeroDivisionError
      else let instance_batch_size = global_batch_size c div num_instances
           in Inr (instance_batch_size - num_discarded_samples))"

section \<open>Restoring the latest checkpoint (vision/cnns/tensorflow1/training/train.py)\<close>

text \<open>
  A Python \<open>str\<close> is a sequence of Unicode code points, and the names \<open>os.listdir\<close> returns
  are of that type: a name is a list of code points, each a natural number. An ASCII
  literal of the source is the list of the codes of its characters.
\<close>

type_synonym ustring = "nat list"

definition ascii :: "string \<Rightarrow> ustring" where
  "ascii s = map of_char s"

definition newline :: nat where
  "newline = 10"

text \<open>
  In a \<open>str\<close> pattern \<open>\d\<close> matches every Unicode decimal digit, and \<open>int\<close> reads every
  such digit by its decimal value. Which code points are decimal digits, and with which
  value, is a table of the Python runtime (the Unicode character database), not of this
  repository: it is the parameter \<open>decimal\<close> of the model, \<open>decimal c = Some v\<close> saying that
  code point \<open>c\<close> is a decimal digit of value \<open>v\<close>.
\<close>

type_synonym decimal_table = "nat \<Rightarrow> nat option"

text \<open>
  \<open>int(s)\<close> on a non-empty string of decimal digits, the only strings the pattern's second
  group can hold (a file name is far shorter than the number of digits at which recent
  interpreters refuse the conversion).
\<close>

definition int_of_digits :: "decimal_table \<Rightarrow> ustring \<Rightarrow> int" where
  "int_of_digits decimal ds = foldl (\<lambda>acc c. 10 * acc + int (the (decimal c))) 0 ds"

text \<open>
  \<open>re.compile(r'(.*ckpt-(\d+)).index').match(s)\<close>, in the order in which the
  backtracking matcher tries the alternatives. The match is anchored at the start of the
  name only. \<open>.*\<close> is greedy and does not cross a newline: the longest prefix is tried
  first. After the literal \<open>ckpt-\<close> the greedy \<open>\d+\<close> takes the longest run of digits
  first and gives digits back one at a time; then \<open>.\<close> takes one code point that is not a
  newline and the literal \<open>index\<close> follows. The result is \<open>(group(1), group(2))\<close>.
\<close>

definition tail_ok :: "ustring \<Rightarrow> bool" where
  "tail_ok t = (case t of [] \<Rightarrow> False | c # r \<Rightarrow> c \<noteq> newline \<and> take 5 r = ascii ''index'')"

fun match_digits :: "ustring \<Rightarrow> nat \<Rightarrow> ustring option" where
  "match_digits r 0 = None"
| "match_digits r (Suc n) =
     (if tail_ok (drop (Suc n) r) then Some (take (Suc n) r) else match_digits r n)"

definition match_at :: "decimal_table \<Rightarrow> ustring \<Rightarrow> nat \<Rightarrow> (ustring \<times> ustring) option" where
  "match_at decimal s i =
     (if take 5 (drop i s) = ascii ''ckpt-''
      then (case match_digits (drop (i + 5) s)
                   (length (takeWhile (\<lambda>c. decimal c \<noteq> None) (drop (i + 5) s))) of
              None \<Rightarrow> None
            | Some ds \<Rightarrow> Some (take i s @ ascii ''ckpt-'' @ ds, ds))
      else None)"

fun match_from :: "decimal_table \<Rightarrow> ustring \<Rightarrow> nat \<Rightarrow> (ustring \<times> ustring) option" where
  "match_from decimal s 0 = match_at decimal s 0"
| "match_from decimal s (Suc i) =
     (case match_at decimal s (Suc i) of
        Some r \<Rightarrow> Some r
      | None \<Rightarrow> match_from decimal s i)"

definition filename_pattern_match :: "decimal_table \<Rightarrow> ustring \<Rightarrow> (ustring \<times> ustring) option" where
  "filename_pattern_match decimal s =
     match_from decimal s (length (takeWhile (\<lambda>c. c \<noteq> newline) s))"

text \<open>\<open>os.path.join(a, b)\<close> on a POSIX system; 47 is the code of the separator \<open>/\<close>.\<close>

definition path_join :: "ustring \<Rightarrow> ustring \<Rightarrow> ustring" where
  "path_join a b =
     (if b \<noteq> [] \<and> hd b = 47 then b
      else if a = [] \<or> last a = 47 then a @ b
      else a @ [47] @ b)"

text \<open>
  Lines 700 to 711 of \<open>_train_process\<close>, run by worker 0: the directory listing is matched
  against the pattern, the names that do not match are dropped, every match becomes the
  pair of its step and its path, the pairs are sorted by step (Python's sort is stable, as
  \<open>sort_key\<close> is) and the last one is taken; indexing the last element of an empty list
  raises. The result is the new iteration counter and the path handed to
  \<open>train.saver.restore\<close>.
\<close>

definition checkpoint_tuples :: "decimal_table \<Rightarrow> ustring \<Rightarrow> ustring list
    \<Rightarrow> (int \<times> ustring) list" where
  "checkpoint_tuples decimal logs_path listing =
     (let patterns = map (filename_pattern_match decimal) listing;
          filtered = filter (\<lambda>x. x \<noteq> None) patterns
      in map (\<lambda>x. (int_of_digits decimal (snd (the x)), path_join logs_path (fst (the x))))
           filtered)"

definition restore_latest :: "decimal_table \<Rightarrow> ustring \<Rightarrow> ustring list
    \<Rightarrow> error + int \<times> ustring" where
  "restore_latest decimal logs_path listing =
     (let filenames = sort_key fst (checkpoint_tuples decimal logs_path listing)
      in if filenames = [] then Inl IndexError
         else let latest_checkpoint = last filenames
              in Inr (fst latest_checkpoint, snd latest_checkpoint))"

text \<open>
  The iteration counter \<open>i\<close> before the broadcast to the other instances, with the path
  restored from, if any: only a restoring run reads a checkpoint here, and only worker 0.
\<close>

definition restore_iteration :: "decimal_table \<Rightarrow> bool \<Rightarrow> int \<Rightarrow> ustring \<Rightarrow> ustring list
    \<Rightarrow> error + int \<times> ustring option" where
  "restore_iteration decimal restoring distributed_worker_index logs_path listing =
     (if restoring
      then if distributed_worker_index = 0
           then (case restore_latest decimal logs_path listing of
                   Inl e \<Rightarrow> Inl e
                 | Inr (i, p) \<Rightarrow> Inr (i, Some p))
           else Inr (0, None)
      else Inr (0, None))"

text \<open>
  A fragment of the runtime's table, enough for the names used as examples below: the
  ASCII digits and the Arabic-Indic digits \<open>U+0660\<close> to \<open>U+0669\<close>.
\<close>

definition decimal_fragment :: decimal_table where
  "decimal_fragment c =
     (if 48 \<le> c \<and> c \<le> 57 then Some (c - 48)
      else if 1632 \<le> c \<and> c \<le> 1641 then Some (c - 1632)
      else None)"

section \<open>Running a training step (vision/cnns/tensorflow1/training/train.py)\<close>

text \<open>
  TensorFlow's exceptions: \<open>tf.errors.OpError\<close> is the base class of the errors raised by
  the runtime, each with an error code, the node definition, the operation and a message;
  \<open>tf.errors.ResourceExhaustedError\<close> is the subclass with the code
  \<open>RESOURCE_EXHAUSTED\<close>. Anything else a step may raise is not an \<open>OpError\<close>.
\<close>

datatype error_code = CANCELLED | UNKNOWN | INVALID_ARGUMENT | DEADLINE_EXCEEDED | NOT_FOUND
  | ALREADY_EXISTS | PERMISSION_DENIED | UNAUTHENTICATED | RESOURCE_EXHAUSTED
  | FAILED_PRECONDITION | ABORTED | OUT_OF_RANGE | UNIMPLEMENTED | INTERNAL | UNAVAILABLE
  | DATA_LOSS

datatype ('n, 'o) exn =
    OpError error_code 'n 'o string
  | Other_exception string

definition ResourceExhaustedError :: "'n \<Rightarrow> 'o \<Rightarrow> string \<Rightarrow> ('n, 'o) exn" where
  "ResourceExhaustedError node_def op message = OpError RESOURCE_EXHAUSTED node_def op message"

text \<open>
  Lines 824 to 830: the \<open>try\<close> block around \<open>training_step\<close>. The outcome of the step is
  its parameter: the exception it raised, or loss, accuracy, time and learning rate. Under
  pipelining the learning rate is scaled inside the block (the product is the one of the
  learning rate's own number type, left abstract). An \<open>OpError\<close> is caught and a
  \<open>ResourceExhaustedError\<close> built from its three fields is raised in its place; any other
  exception passes through; the step is not run again.
\<close>

definition run_training_step :: "(('n, 'o) exn + 'l \<times> 'a \<times> 't \<times> 'r) \<Rightarrow> bool \<Rightarrow> 'r
    \<Rightarrow> ('n, 'o) exn + 'l \<times> 'a \<times> 't \<times> ('r :: times)" where
  "run_training_step step_outcome pipeline lr_scale =
     (case step_outcome of
        Inr (batch_loss, batch_acc, batch_time, current_lr) \<Rightarrow>
          Inr (batch_loss, batch_acc, batch_time,
               if pipeline then current_lr * lr_scale else current_lr)
      | Inl (OpError code node_def op message) \<Rightarrow>
          Inl (ResourceExhaustedError node_def op message)
      | Inl (Other_exception e) \<Rightarrow> Inl (Other_exception e))"

text \<open>
  The training loop of \<open>_train_process\<close> (lines 791 to 911): \<open>while i < iterations\<close>,
  with one call of \<open>training_step\<close> per iteration, inside the \<open>try\<close> block above, and
  \<open>i += iterations_per_step\<close> at the end of the body. What the runtime does on the \<open>k\<close>-th
  call of \<open>training_step\<close> is the parameter \<open>training_step k\<close>. The bookkeeping between two
  calls (statistics, logging, checkpoint writes, weight synchronisation, validation points)
  is left out: it contains no exception handler and no call of \<open>training_step\<close>. Neither
  the rest of \<open>_train_process\<close> nor \<open>train_process\<close> (a \<open>try\<close> with a \<open>finally\<close> only) nor
  the main program catches what the loop raises. The result is the exception that ended
  the loop or the final iteration counter, with the number of calls of \<open>training_step\<close>
  made; \<open>None\<close> stands for a loop that runs forever.
\<close>

partial_function (option) training_loop ::
  "(nat \<Rightarrow> ('n, 'o) exn + 'l \<times> 'a \<times> 't \<times> ('r :: times)) \<Rightarrow> bool \<Rightarrow> 'r \<Rightarrow> int \<Rightarrow> int
     \<Rightarrow> int \<Rightarrow> nat \<Rightarrow> ((('n, 'o) exn + int) \<times> nat) option" where
  "training_loop training_step pipeline lr_scale iterations_per_step iterations i calls =
     (if i < iterations
      then (case run_training_step (training_step calls) pipeline lr_scale of
              Inl e \<Rightarrow> Some (Inl e, Suc calls)
            | Inr r \<Rightarrow>
                training_loop training_step pipeline lr_scale iterations_per_step iterations
                  (i + iterations_per_step) (Suc calls))
      else Some (Inr i, calls))"

section \<open>Properties of the float operations\<close>

subsection \<open>Bit length and binary exponent\<close>

lemma bit_length_pos: "0 < n \<Longrightarrow> 0 < bit_length n"
proof (induction n rule: bit_length.induct)
  case (1 n)
  have "0 \<le> bit_length (n div 2)"
  proof (cases "n div 2 \<le> 0")
    case True
    then show ?thesis by (subst bit_length.simps) simp
  next
    case False
    with 1 show ?thesis by simp
  qed
  with "1.prems" show ?case by (subst bit_length.simps) simp
qed

lemma bit_length_bounds:
  "0 < n \<Longrightarrow> 2 ^ nat (bit_length n - 1) \<le> n \<and> n < 2 ^ nat (bit_length n)"
proof (induction n rule: bit_length.induct)
  case (1 n)
  have bl: "bit_length n = 1 + bit_length (n div 2)"
    using "1.prems" by (subst bit_length.simps) simp
  show ?case
  proof (cases "n = 1")
    case True
    have "bit_length (1 div 2) = 0" by (subst bit_length.simps) simp
    with bl True show ?thesis by simp
  next
    case False
    with "1.prems" have h: "0 < n div 2" by simp
    from "1.IH" "1.prems" h
    have ih1: "2 ^ nat (bit_length (n div 2) - 1) \<le> n div 2"
      and ih2: "n div 2 < 2 ^ nat (bit_length (n div 2))"
      by auto
    have p: "0 < bit_length (n div 2)" using h by (rule bit_length_pos)
    have e1: "nat (bit_length n - 1) = Suc (nat (bit_length (n div 2) - 1))"
      using p bl by simp
    have e2: "nat (bit_length n) = Suc (nat (bit_length (n div 2)))"
      using p bl by simp
    have a: "2 * (n div 2) \<le> n" by simp
    have b: "n < 2 * (n div 2) + 2" by presburger
    have "(2::int) ^ Suc (nat (bit_length (n div 2) - 1)) \<le> n"
      using ih1 a by simp
    moreover have "n < (2::int) ^ Suc (nat (bit_length (n div 2)))"
      using ih2 b by simp
    ultimately show ?thesis unfolding e1 e2 by blast
  qed
qed


lemma p2_pos: "(0::rat) < 2 powi k"
  by (simp add: zero_less_power_int)

lemma p2_add: "(2::rat) powi (a + b) = 2 powi a * 2 powi b"
  by (simp add: power_int_add)

lemma p2_diff: "(2::rat) powi (a - b) = 2 powi a / 2 powi b"
  by (simp add: power_int_diff)

lemma p2_less_iff: "(2::rat) powi a < 2 powi b \<longleftrightarrow> a < b"
proof
  assume l: "(2::rat) powi a < 2 powi b"
  show "a < b"
  proof (rule ccontr)
    assume "\<not> a < b"
    then have "b \<le> a" by simp
    then have "(2::rat) powi b \<le> 2 powi a" by (rule power_int_increasing) simp
    with l show False by simp
  qed
next
  assume "a < b"
  then show "(2::rat) powi a < 2 powi b" by (rule power_int_strict_increasing) simp
qed

lemma bit_length_rat:
  assumes "0 < n"
  shows "(2::rat) powi (bit_length n - 1) \<le> of_int n" and "of_int n < (2::rat) powi bit_length n"
proof -
  from bit_length_bounds[OF assms] bit_length_pos[OF assms]
  have a: "2 ^ nat (bit_length n - 1) \<le> n" and b: "n < 2 ^ nat (bit_length n)"
    and p: "0 < bit_length n" by auto
  have "(of_int (2 ^ nat (bit_length n - 1)) :: rat) \<le> of_int n"
    using a by (simp only: of_int_le_iff)
  then show "(2::rat) powi (bit_length n - 1) \<le> of_int n"
    using p by (simp add: power_int_def)
  have "(of_int n :: rat) < of_int (2 ^ nat (bit_length n))"
    using b by (simp only: of_int_less_iff)
  then show "of_int n < (2::rat) powi bit_length n"
    using p by (simp add: power_int_def)
qed

lemma expo_bounds:
  assumes "0 < q"
  shows "2 powi expo q \<le> q" and "q < 2 powi (expo q + 1)"
proof -
  obtain a b where ab: "quotient_of q = (a, b)" by (cases "quotient_of q")
  have bpos: "0 < b" using ab by (rule quotient_of_denom_pos)
  have q: "q = of_int a / of_int b" using ab by (rule quotient_of_div)
  have apos: "0 < a" using assms bpos unfolding q by (simp add: zero_less_divide_iff)
  define d where "d = bit_length a - bit_length b"
  have ex: "expo q = (if q < 2 powi d then d - 1 else d)"
    using assms ab by (simp add: expo_def d_def)
  have rb: "(0::rat) < of_int b" using bpos by simp
  have pp: "(0::rat) < 2 powi k" for k by (simp add: zero_less_power_int)
  have up: "q < 2 powi (d + 1)"
  proof -
    have "q < 2 powi bit_length a / of_int b"
      unfolding q using bit_length_rat(2)[OF apos] rb by (simp add: divide_strict_right_mono)
    also have "\<dots> \<le> 2 powi bit_length a / 2 powi (bit_length b - 1)"
      using bit_length_rat(1)[OF bpos] using rb pp by (intro divide_left_mono) (simp_all add: mult_pos_pos less_imp_le)
    also have "\<dots> = 2 powi (d + 1)"
      by (simp add: d_def p2_add p2_diff)
    finally show ?thesis .
  qed
  have lo: "2 powi (d - 1) \<le> q"
  proof -
    have "(2::rat) powi (d - 1) = 2 powi (bit_length a - 1) / 2 powi bit_length b"
      by (simp add: d_def p2_add p2_diff)
    also have "\<dots> \<le> 2 powi (bit_length a - 1) / of_int b"
      using bit_length_rat(2)[OF bpos] rb pp by (intro divide_left_mono) (simp_all add: mult_pos_pos less_imp_le)
    also have "\<dots> \<le> q"
      unfolding q using bit_length_rat(1)[OF apos] rb by (simp add: divide_right_mono)
    finally show ?thesis .
  qed
  show "2 powi expo q \<le> q" using lo by (simp add: ex)
  show "q < 2 powi (expo q + 1)" using up by (simp add: ex)
qed


lemma rhe_of_int: "round_half_even (of_int n) = n"
  by (simp add: round_half_even_def)

lemma rhe_err: "\<bar>of_int (round_half_even x) - x\<bar> \<le> 1 / 2"
proof -
  have "of_int \<lfloor>x\<rfloor> \<le> x" "x < of_int \<lfloor>x\<rfloor> + 1" by linarith+
  then show ?thesis
    by (auto simp: round_half_even_def Let_def abs_le_iff)
qed


lemma fl_exact:
  assumes m: "0 < m" "m < 2 ^ 53" and k: "- 1074 \<le> k"
  shows "fl (of_int m * 2 powi k) = of_int m * 2 powi k"
proof -
  define q :: rat where "q = of_int m * 2 powi k"
  have qpos: "0 < q" using m p2_pos[of k] by (simp add: q_def)
  have "2 powi expo q \<le> q" using qpos by (rule expo_bounds)
  also have "q < 2 ^ 53 * 2 powi k"
  proof -
    have "(of_int m :: rat) < of_int (2 ^ 53)" using m by (simp only: of_int_less_iff)
    then show ?thesis using p2_pos[of k] by (simp add: q_def)
  qed
  also have "\<dots> = 2 powi (53 + k)" by (simp add: p2_add)
  finally have "expo q < 53 + k" by (simp only: p2_less_iff)
  then have j: "max (expo q) (- 1022) - 52 \<le> k" using k by simp
  define j where "j = max (expo q) (- 1022) - 52"
  have "q / 2 powi j = of_int m * 2 powi (k - j)" by (simp add: q_def p2_diff)
  also have "\<dots> = of_int m * 2 ^ nat (k - j)" using j by (simp add: power_int_def j_def)
  also have "\<dots> = of_int (m * 2 ^ nat (k - j))" by simp
  finally have "round_half_even (q / 2 powi j) = m * 2 ^ nat (k - j)"
    by (simp only: rhe_of_int)
  then have "of_int (round_half_even (q / 2 powi j)) * 2 powi j
      = of_int m * ((2::rat) ^ nat (k - j) * 2 powi j)" by simp
  also have "(2::rat) ^ nat (k - j) = 2 powi (k - j)" using j by (simp add: power_int_def j_def)
  also have "2 powi (k - j) * (2::rat) powi j = 2 powi k" by (simp add: p2_diff)
  finally have "of_int (round_half_even (q / 2 powi j)) * 2 powi j = q" by (simp add: q_def)
  then have "fl q = q" using qpos by (simp add: fl_def j_def Let_def)
  then show ?thesis by (simp add: q_def)
qed


subsection \<open>Exactly representable quotients\<close>

lemma float_max_ge: "2 ^ 53 \<le> float_max"
  by (simp add: float_max_def)

lemma fl_int_exact:
  assumes "0 < n" "n \<le> 2 ^ 53"
  shows "fl (of_int n) = of_int n"
proof (cases "n < 2 ^ 53")
  case True
  with fl_exact[of n 0] assms show ?thesis by simp
next
  case False
  with assms have n: "n = 2 ^ 53" by simp
  have "fl (of_int (2 ^ 52) * 2 powi 1) = of_int (2 ^ 52) * 2 powi 1"
    by (rule fl_exact) simp_all
  then show ?thesis by (simp add: n)
qed


lemma int_to_float_exact:
  assumes "0 < n" "n \<le> 2 ^ 53"
  shows "int_to_float n = Inr (of_int n)"
proof -
  have "(of_int n :: rat) \<le> of_int (2 ^ 53)" using assms by (simp only: of_int_le_iff)
  then have "(of_int n :: rat) \<le> float_max" using float_max_ge by simp
  moreover have "(0::rat) < of_int n" using assms by simp
  ultimately show ?thesis
    using fl_int_exact[OF assms] by (simp add: int_to_float_def Let_def)
qed

lemma quotient_divisible:
  assumes "0 < mbs" "0 < nr" "0 < k" "k * (mbs * nr) \<le> 2 ^ 53"
  shows "int_true_div (k * (mbs * nr)) mbs = Inr (of_int (k * nr))"
    and "float_div_int (of_int (k * nr)) nr = Inr (of_int k)"
proof -
  have kn: "0 < k * nr" using assms by simp
  have "k * nr * 1 \<le> k * nr * mbs" using assms kn by (intro mult_left_mono) simp_all
  moreover have "k * nr * mbs = k * (mbs * nr)" by simp
  ultimately have knb: "k * nr \<le> 2 ^ 53" using assms(4) by linarith
  have "nr * 1 \<le> nr * k" using assms by (intro mult_left_mono) simp_all
  moreover have "nr * k = k * nr" by simp
  ultimately have nb: "nr \<le> 2 ^ 53" using knb by linarith
  have "k * 1 \<le> k * nr" using assms by (intro mult_left_mono) simp_all
  then have kb: "k \<le> 2 ^ 53" using knb by linarith
  have le: "(of_int (k * nr) :: rat) \<le> float_max"
  proof -
    have "(of_int (k * nr) :: rat) \<le> of_int (2 ^ 53)" using knb by (simp only: of_int_le_iff)
    then show ?thesis using float_max_ge by simp
  qed
  have pos: "(0::rat) < of_int (k * nr)" using kn by (simp only: of_int_0_less_iff)
  have "(of_int (k * (mbs * nr)) :: rat) / of_int mbs = of_int (k * nr)"
    using assms by simp
  then show "int_true_div (k * (mbs * nr)) mbs = Inr (of_int (k * nr))"
    using assms le pos fl_int_exact[OF kn knb] by (simp add: int_true_div_def Let_def)
  have "(of_int (k * nr) :: rat) / of_int nr = of_int k" using assms by simp
  then show "float_div_int (of_int (k * nr)) nr = Inr (of_int k)"
    using assms int_to_float_exact[OF assms(2) nb] fl_int_exact[OF assms(3) kb]
    by (simp add: float_div_int_def)
qed

lemma post_init_divisible:
  assumes "0 < mbs" "0 < nr" "0 < gbs" "gbs \<le> 2 ^ 53" "gbs mod (mbs * nr) = 0"
  shows "post_init mbs nr None (Some gbs) = finish_init mbs nr (gbs div (mbs * nr)) gbs []"
proof -
  define k where "k = gbs div (mbs * nr)"
  have N: "0 < mbs * nr" using assms by simp
  have "mbs * nr dvd gbs" using assms(5) by (simp add: mod_eq_0_iff_dvd)
  then have g: "gbs = k * (mbs * nr)" unfolding k_def by (simp only: dvd_div_mult_self)
  have kpos: "0 < k" using assms(3) N unfolding g by (simp add: zero_less_mult_iff)
  have b: "k * (mbs * nr) \<le> 2 ^ 53" using assms(4) g by simp
  note q = quotient_divisible[OF assms(1,2) kpos b]
  have "post_init mbs nr None (Some (k * (mbs * nr))) = finish_init mbs nr k (k * (mbs * nr)) []"
    using assms(1,2) kpos N by (simp add: post_init_def q py_int_def del: of_int_mult)
  then have "post_init mbs nr None (Some gbs) = finish_init mbs nr k gbs []"
    by (simp only: g[symmetric])
  then show ?thesis by (simp only: k_def)
qed

subsection \<open>The distance of a quotient to a tie\<close>




subsection \<open>Finite quotients\<close>

lemma rhe_le:
  assumes "x \<le> of_int M"
  shows "round_half_even x \<le> M"
proof (rule ccontr)
  assume "\<not> round_half_even x \<le> M"
  then have "M + 1 \<le> round_half_even x" by simp
  then have "(of_int (M + 1) :: rat) \<le> of_int (round_half_even x)" by (simp only: of_int_le_iff)
  with rhe_err[of x] assms show False by (simp add: abs_le_iff)
qed

lemma fl_le_float_max:
  assumes "0 < z" "z \<le> float_max"
  shows "fl z \<le> float_max"
proof -
  define e where "e = max (expo z) (- 1022)"
  define u :: rat where "u = 2 powi (e - 52)"
  have upos: "0 < u" by (simp add: u_def p2_pos)
  have f: "fl z = of_int (round_half_even (z / u)) * u"
    using assms(1) by (simp add: fl_def Let_def u_def e_def)
  have fm: "float_max = (2 ^ 53 - 1) * 2 powi 971" by (simp add: float_max_def)
  have "2 powi expo z \<le> z" using assms(1) by (rule expo_bounds)
  also have "z < 2 powi 1024" using assms(2) by (simp add: float_max_def)
  finally have "expo z < 1024" by (simp only: p2_less_iff)
  then have e_hi: "e \<le> 1023" by (simp add: e_def)
  show ?thesis
  proof (cases "e = 1023")
    case True
    then have u: "u = 2 powi 971" by (simp add: u_def)
    have "z / u \<le> of_int (2 ^ 53 - 1)"
      using assms(2) upos unfolding fm u by (simp add: field_simps)
    then have "round_half_even (z / u) \<le> 2 ^ 53 - 1" by (rule rhe_le)
    then have "(of_int (round_half_even (z / u)) :: rat) \<le> of_int (2 ^ 53 - 1)"
      by (simp only: of_int_le_iff)
    then have "of_int (round_half_even (z / u)) * u \<le> of_int (2 ^ 53 - 1) * u"
      using upos by (intro mult_right_mono) simp_all
    then show ?thesis unfolding f fm u by simp
  next
    case False
    with e_hi have e_lt: "e \<le> 1022" by simp
    have "z < 2 powi (e + 1)"
    proof -
      have "z < 2 powi (expo z + 1)" using assms(1) by (rule expo_bounds)
      also have "\<dots> \<le> 2 powi (e + 1)" by (rule power_int_increasing) (simp_all add: e_def)
      finally show ?thesis .
    qed
    also have "\<dots> = 2 ^ 53 * u" by (simp add: u_def p2_add p2_diff)
    finally have "z / u \<le> of_int (2 ^ 53)" using upos by (simp add: field_simps)
    then have "round_half_even (z / u) \<le> 2 ^ 53" by (rule rhe_le)
    then have "(of_int (round_half_even (z / u)) :: rat) \<le> of_int (2 ^ 53)"
      by (simp only: of_int_le_iff)
    then have "of_int (round_half_even (z / u)) * u \<le> of_int (2 ^ 53) * u"
      using upos by (intro mult_right_mono) simp_all
    also have "of_int (2 ^ 53) * u = 2 powi (e + 1)" by (simp add: u_def p2_add p2_diff)
    also have "\<dots> \<le> 2 powi 1023" using e_lt by (intro power_int_increasing) simp_all
    also have "\<dots> \<le> float_max" by (simp add: float_max_def)
    finally show ?thesis unfolding f .
  qed
qed

lemma rhe_ge:
  assumes "of_int M \<le> x"
  shows "M \<le> round_half_even x"
proof (rule ccontr)
  assume "\<not> M \<le> round_half_even x"
  then have "round_half_even x \<le> M - 1" by simp
  then have "(of_int (round_half_even x) :: rat) \<le> of_int (M - 1)" by (simp only: of_int_le_iff)
  with rhe_err[of x] assms show False by (simp add: abs_le_iff)
qed

lemma fl_nonneg:
  assumes "0 \<le> z"
  shows "0 \<le> fl z"
proof (cases "z = 0")
  case True
  then show ?thesis by (simp add: fl_def)
next
  case False
  define u :: rat where "u = 2 powi (max (expo z) (- 1022) - 52)"
  have upos: "0 < u" by (simp add: u_def p2_pos)
  have "of_int 0 \<le> z / u" using assms upos by simp
  then have "0 \<le> round_half_even (z / u)" by (rule rhe_ge)
  then show ?thesis using False upos by (simp add: fl_def Let_def u_def[symmetric])
qed

lemma fl_ge_one:
  assumes "1 \<le> z"
  shows "1 \<le> fl z"
proof -
  have zpos: "0 < z" using assms by simp
  have "(2::rat) powi 0 \<le> z" using assms by simp
  also have "z < 2 powi (expo z + 1)" using zpos by (rule expo_bounds)
  finally have "0 < expo z + 1" by (simp only: p2_less_iff)
  then have e: "0 \<le> expo z" by simp
  define u :: rat where "u = 2 powi (expo z - 52)"
  have upos: "0 < u" by (simp add: u_def p2_pos)
  have f: "fl z = of_int (round_half_even (z / u)) * u"
    using zpos e by (simp add: fl_def Let_def u_def max_def)
  have "2 powi expo z \<le> z" using zpos by (rule expo_bounds)
  moreover have "(2::rat) powi expo z = 2 ^ 52 * u" by (simp add: u_def p2_diff)
  ultimately have "of_int (2 ^ 52) \<le> z / u" using upos by (simp add: field_simps)
  then have "2 ^ 52 \<le> round_half_even (z / u)" by (rule rhe_ge)
  then have "(of_int (2 ^ 52) :: rat) \<le> of_int (round_half_even (z / u))"
    by (simp only: of_int_le_iff)
  then have "of_int (2 ^ 52) * u \<le> of_int (round_half_even (z / u)) * u"
    using upos by (intro mult_right_mono) simp_all
  moreover have "of_int (2 ^ 52) * u = 2 powi expo z" by (simp add: u_def p2_diff)
  moreover have "(1::rat) \<le> 2 powi expo z" using e by (intro one_le_power_int) simp_all
  ultimately show ?thesis unfolding f by linarith
qed

text \<open>
  The quotient of a finite non-negative float by a positive integer is a finite float:
  the case left out of \<open>float_div_int\<close> does not arise in \<open>post_init\<close>.
\<close>

lemma float_div_int_finite:
  assumes "0 \<le> x" "x \<le> float_max" "0 < n" "float_div_int x n = Inr q"
  shows "0 \<le> q \<and> q \<le> float_max"
proof -
  from assms(4) obtain y where y: "int_to_float n = Inr y" and q: "q = fl (x / y)"
    by (auto simp: float_div_int_def split: sum.splits if_splits)
  from y have "y = fl (of_int n)"
    by (auto simp: int_to_float_def Let_def split: if_splits)
  moreover have "(1::rat) \<le> of_int n" using assms(3) by simp
  ultimately have y1: "1 \<le> y" using fl_ge_one by simp
  have lo: "0 \<le> x / y" using assms(1) y1 by simp
  have "x / y \<le> x / 1" using assms(1) y1 by (intro divide_left_mono) simp_all
  then have hi: "x / y \<le> float_max" using assms(2) by simp
  show ?thesis
  proof (cases "x / y = 0")
    case True
    then show ?thesis by (simp add: q fl_def float_max_def)
  next
    case False
    with lo have "0 < x / y" by (simp only: order.strict_iff_order) simp
    from fl_le_float_max[OF this hi] fl_nonneg[OF lo] show ?thesis by (simp add: q)
  qed
qed

subsection \<open>Monotonicity and scaling of rounding\<close>










subsection \<open>The second rounding\<close>





subsection \<open>The float quotient rounds like the exact quotient\<close>




section \<open>Properties of the batch configuration\<close>





text \<open>
  Claim C1, as the code has it. A construction that completes without raising leaves
  \<open>global_batch_size = micro_batch_size * num_replicas * gradient_accumulation_count\<close>,
  provided a supplied global batch size that is divisible by
  \<open>micro_batch_size * num_replicas\<close> does not exceed \<open>2^53\<close>, the range in which the float
  quotient of the divisible case is exact. There is no bound when the supplied global
  batch size is not divisible, nor when the gradient accumulation count is supplied.
\<close>

theorem construction_invariant:
  assumes ok: "post_init mbs nr gac gbs = Inr (c, l)"
    and small: "\<forall>b. gbs = Some b \<and> b mod (mbs * nr) = 0 \<longrightarrow> b \<le> 2 ^ 53"
  shows "global_batch_size c =
           micro_batch_size c * num_replicas c * gradient_accumulation_count c"
proof -
  from ok have pos: "0 < mbs" "0 < nr"
    by (auto simp: post_init_def split: if_splits)
  show ?thesis
  proof (cases gac)
    case (Some g)
    with ok pos show ?thesis
      by (auto simp: post_init_def finish_init_def split: if_splits option.splits)
  next
    case None
    with ok pos obtain b where b: "gbs = Some b" "0 < b"
      by (auto simp: post_init_def split: if_splits option.splits)
    show ?thesis
    proof (cases "b mod (mbs * nr) = 0")
      case True
      with small b(1) have bs: "b \<le> 2 ^ 53" by simp
      from True have "mbs * nr dvd b" by (simp add: mod_eq_0_iff_dvd)
      then have "mbs * nr * (b div (mbs * nr)) = b" by simp
      moreover have "post_init mbs nr None (Some b) = finish_init mbs nr (b div (mbs * nr)) b []"
        using pos b(2) bs True by (rule post_init_divisible)
      ultimately show ?thesis using ok None b(1) by (auto simp: finish_init_def)
    next
      case False
      with ok None b pos show ?thesis
        by (auto simp: post_init_def finish_init_def Let_def split: sum.splits)
    qed
  qed
qed

theorem construction_invariant_witness:
  "post_init 4 2 None (Some 32) =
     Inr (\<lparr>micro_batch_size = 4, num_replicas = 2, gradient_accumulation_count = 4,
           global_batch_size = 32, num_micro_batches_per_weight_update = 8\<rparr>,
          [Info_micro_batch_size 4, Info_global_batch_size 32,
           Info_gradient_accumulation 4, Info_num_replicas 2])
   \<and> (32::int) mod (4 * 2) = 0 \<and> (32::int) \<le> 2 ^ 53
   \<and> (32::int) = 4 * 2 * 4"
proof -
  have ok: "post_init 4 2 None (Some 32) =
     Inr (\<lparr>micro_batch_size = 4, num_replicas = 2, gradient_accumulation_count = 4,
           global_batch_size = 32, num_micro_batches_per_weight_update = 8\<rparr>,
          [Info_micro_batch_size 4, Info_global_batch_size 32,
           Info_gradient_accumulation 4, Info_num_replicas 2])"
    by code_simp
  have small: "\<forall>b. Some (32::int) = Some b \<and> b mod (4 * 2) = 0 \<longrightarrow> b \<le> 2 ^ 53" by simp
  from construction_invariant[OF ok small] ok show ?thesis by simp
qed

text \<open>
  Past the bound the invariant fails: \<open>2^53 + 1\<close> is divisible by \<open>1 * 1\<close>, the float
  quotient is \<open>2^53\<close>, and the global batch size is left as supplied.
\<close>

theorem construction_invariant_counterexample:
  "post_init 1 1 None (Some 9007199254740993) =
     Inr (\<lparr>micro_batch_size = 1, num_replicas = 1,
           gradient_accumulation_count = 9007199254740992,
           global_batch_size = 9007199254740993,
           num_micro_batches_per_weight_update = 9007199254740992\<rparr>,
          [Info_micro_batch_size 1, Info_global_batch_size 9007199254740993,
           Info_gradient_accumulation 9007199254740992, Info_num_replicas 1])
   \<and> (9007199254740993::int) \<noteq> 1 * 1 * 9007199254740992"
  by code_simp






text \<open>
  Claim C4. Construction raises, and so produces no object, when both optional fields are
  supplied, when neither is, or when a supplied value is not positive. The exception is
  the \<open>AssertionError\<close> of the failed \<open>assert\<close> when the micro batch size or the number
  of replicas is not positive, else the \<open>ValueError\<close> for both or neither field, else the
  \<open>AssertionError\<close> for the non-positive field that was supplied. (Assertions are
  taken as enabled, the interpreter's default.)
\<close>

theorem construction_errors:
  assumes "(gac \<noteq> None \<and> gbs \<noteq> None) \<or> (gac = None \<and> gbs = None) \<or> mbs \<le> 0 \<or> nr \<le> 0
     \<or> (\<exists>g. gac = Some g \<and> g \<le> 0) \<or> (\<exists>b. gbs = Some b \<and> b \<le> 0)"
  shows "post_init mbs nr gac gbs =
     Inl (if mbs \<le> 0 \<or> nr \<le> 0 then AssertionError
          else if (gac = None) = (gbs = None) then ValueError else AssertionError)"
  using assms by (auto simp: post_init_def split: option.splits)

theorem construction_errors_witness:
  "post_init 4 2 (Some 1) (Some 8) = Inl ValueError
   \<and> post_init 4 2 None None = Inl ValueError
   \<and> post_init 0 2 (Some 1) None = Inl AssertionError
   \<and> post_init 4 (- 1) None (Some 8) = Inl AssertionError
   \<and> post_init 4 2 (Some 0) None = Inl AssertionError
   \<and> post_init 4 2 None (Some (- 8)) = Inl AssertionError"
  using construction_errors[of "Some 1" "Some 8" 4 2]
    construction_errors[of None None 4 2]
    construction_errors[of "Some 1" None 0 2]
    construction_errors[of None "Some 8" 4 "- 1"]
    construction_errors[of "Some 0" None 4 2]
    construction_errors[of None "Some (- 8)" 4 2]
  by simp

text \<open>
  Claim C5. On a constructed configuration, when \<open>global_batch_size // num_instances\<close> is
  not zero, \<open>get_num_discarded_samples(dataset_size, num_instances)\<close> returns
  \<open>dataset_size % (global_batch_size // num_instances)\<close>.
\<close>

theorem discarded_samples:
  assumes "post_init mbs nr gac gbs = Inr (c, l)"
    and "global_batch_size c div num_instances \<noteq> 0"
  shows "get_num_discarded_samples c dataset_size num_instances =
           Inr (dataset_size mod (global_batch_size c div num_instances))"
proof -
  have "num_instances \<noteq> 0" using assms(2) by auto
  with assms(2) show ?thesis by (simp add: get_num_discarded_samples_def)
qed

theorem discarded_samples_witness:
  "get_num_discarded_samples
     \<lparr>micro_batch_size = 4, num_replicas = 2, gradient_accumulation_count = 4,
      global_batch_size = 32, num_micro_batches_per_weight_update = 8\<rparr> 100 2 = Inr 4"
proof -
  have ok: "post_init 4 2 (Some 4) None =
     Inr (\<lparr>micro_batch_size = 4, num_replicas = 2, gradient_accumulation_count = 4,
           global_batch_size = 32, num_micro_batches_per_weight_update = 8\<rparr>,
          [Info_micro_batch_size 4, Info_global_batch_size 32,
           Info_gradient_accumulation 4, Info_num_replicas 2])"
    by (simp add: post_init_def finish_init_def)
  from discarded_samples[OF ok, of 2 100] show ?thesis by simp
qed

text \<open>
  The weight-update granularity is the gradient accumulation count times the number of
  replicas on every constructed configuration, and the epoch size is the dataset size
  rounded down to a multiple of it wherever the divisor is not zero.
\<close>

lemma weight_update_granularity:
  assumes "post_init mbs nr gac gbs = Inr (c, l)"
  shows "num_micro_batches_per_weight_update c = gradient_accumulation_count c * num_replicas c"
  using assms
  by (auto simp: post_init_def finish_init_def Let_def split: if_splits option.splits sum.splits)

lemma micro_batches_per_epoch_nonzero:
  assumes "micro_batch_size c * num_micro_batches_per_weight_update c \<noteq> 0"
  shows "get_num_micro_batches_per_epoch c dataset_size =
           Inr (dataset_size div (micro_batch_size c * num_micro_batches_per_weight_update c)
                  * num_micro_batches_per_weight_update c)"
  using assms by (simp add: get_num_micro_batches_per_epoch_def Let_def)

text \<open>
  Claim C6 at the input where the code departs from it. The construction
  \<open>BatchConfig(micro_batch_size=4, num_replicas=2, global_batch_size=3)\<close> succeeds with a
  gradient accumulation count of 0, so the weight-update granularity is 0 and
  \<open>get_num_micro_batches_per_epoch(100)\<close> raises \<open>ZeroDivisionError\<close>: it returns no number.
\<close>

theorem micro_batches_per_epoch_zero_division:
  "post_init 4 2 None (Some 3) =
     Inr (\<lparr>micro_batch_size = 4, num_replicas = 2, gradient_accumulation_count = 0,
           global_batch_size = 0, num_micro_batches_per_weight_update = 0\<rparr>,
          [Warning_not_divisible 3 4 2 (3 / 8) 0 0, Info_micro_batch_size 4,
           Info_global_batch_size 0, Info_gradient_accumulation 0, Info_num_replicas 2])
   \<and> get_num_micro_batches_per_epoch
        \<lparr>micro_batch_size = 4, num_replicas = 2, gradient_accumulation_count = 0,
         global_batch_size = 0, num_micro_batches_per_weight_update = 0\<rparr> 100
       = Inl ZeroDivisionError"
  by code_simp

text \<open>
  Claim C9. On a constructed configuration, for a dataset size that is not negative and a
  positive instance batch size \<open>global_batch_size // num_instances\<close>, the number \<open>d\<close> of
  discarded samples lies in \<open>0 \<le> d < instance_batch_size\<close>, and with the padding \<open>p\<close>
  computed from it \<open>d + p\<close> is 0 when \<open>d = 0\<close> and the instance batch size otherwise; the
  dataset size plus the padding is a multiple of the instance batch size.
\<close>

theorem padding_completes_batch:
  assumes "post_init mbs nr gac gbs = Inr (c, l)"
    and "0 \<le> dataset_size"
    and "0 < global_batch_size c div num_instances"
  shows "\<exists>d p. get_num_discarded_samples c dataset_size num_instances = Inr d \<and>
           get_num_padding_samples c d num_instances = Inr p \<and>
           0 \<le> d \<and> d < global_batch_size c div num_instances \<and>
           d + p = (if d = 0 then 0 else global_batch_size c div num_instances) \<and>
           (dataset_size + p) mod (global_batch_size c div num_instances) = 0"
proof -
  define b where "b = global_batch_size c div num_instances"
  define d where "d = dataset_size mod b"
  have bpos: "0 < b" using assms(3) by (simp add: b_def)
  have ni: "num_instances \<noteq> 0" using assms(3) by auto
  have dd: "get_num_discarded_samples c dataset_size num_instances = Inr d"
    using ni bpos by (simp add: get_num_discarded_samples_def b_def d_def)
  have range: "0 \<le> d" "d < b" using bpos by (simp_all add: d_def)
  show ?thesis
  proof (cases "d = 0")
    case True
    then have "get_num_padding_samples c d num_instances = Inr 0"
      by (simp add: get_num_padding_samples_def)
    moreover have "(dataset_size + 0) mod b = 0" using True by (simp add: d_def)
    ultimately show ?thesis using dd range True unfolding b_def by auto
  next
    case False
    then have pp: "get_num_padding_samples c d num_instances = Inr (b - d)"
      using ni by (simp add: get_num_padding_samples_def b_def)
    have "(dataset_size + (b - d)) mod b = (dataset_size - d + b) mod b" by (simp add: algebra_simps)
    also have "\<dots> = (dataset_size - d) mod b" by simp
    also have "\<dots> = 0" unfolding d_def by (simp add: minus_mod_eq_mult_div)
    finally have "(dataset_size + (b - d)) mod b = 0" .
    with dd pp range False show ?thesis unfolding b_def by auto
  qed
qed

theorem padding_completes_batch_witness:
  "get_num_discarded_samples
     \<lparr>micro_batch_size = 4, num_replicas = 2, gradient_accumulation_count = 4,
      global_batch_size = 32, num_micro_batches_per_weight_update = 8\<rparr> 100 2 = Inr 4 \<and>
   get_num_padding_samples
     \<lparr>micro_batch_size = 4, num_replicas = 2, gradient_accumulation_count = 4,
      global_batch_size = 32, num_micro_batches_per_weight_update = 8\<rparr> 4 2 = Inr 12 \<and>
   (4::int) + 12 = 16 \<and> ((100::int) + 12) mod 16 = 0"
proof -
  define c where "c = \<lparr>micro_batch_size = 4, num_replicas = 2, gradient_accumulation_count = 4,
      global_batch_size = 32, num_micro_batches_per_weight_update = 8\<rparr>"
  have ok: "post_init 4 2 (Some 4) None =
     Inr (c, [Info_micro_batch_size 4, Info_global_batch_size 32,
           Info_gradient_accumulation 4, Info_num_replicas 2])"
    by (simp add: post_init_def finish_init_def c_def)
  have g: "global_batch_size c div 2 = 16" by (simp add: c_def)
  from padding_completes_batch[OF ok, of 100 2]
  obtain d p where h: "get_num_discarded_samples c 100 2 = Inr d"
    "get_num_padding_samples c d 2 = Inr p"
    "d + p = (if d = 0 then 0 else 16)" "(100 + p) mod 16 = 0"
    unfolding g by auto
  have "get_num_discarded_samples c 100 2 = Inr 4"
    by (simp add: get_num_discarded_samples_def c_def)
  with h(1) have d: "d = 4" by simp
  with h(3) have p: "p = 12" by simp
  from h(1,2,4) show ?thesis unfolding d p c_def by simp
qed

text \<open>
  Claim C10. Positive inputs on the global batch size path can resolve to fields that are
  not positive: \<open>BatchConfig(micro_batch_size=4, num_replicas=2, global_batch_size=3)\<close>
  raises nothing, its float quotient \<open>3/8\<close> rounds to a gradient accumulation count of 0,
  and the global batch size is recomputed to 0.
\<close>

theorem resolved_fields_not_positive:
  "0 < (4::int) \<and> 0 < (2::int) \<and> 0 < (3::int) \<and>
   post_init 4 2 None (Some 3) =
     Inr (\<lparr>micro_batch_size = 4, num_replicas = 2, gradient_accumulation_count = 0,
           global_batch_size = 0, num_micro_batches_per_weight_update = 0\<rparr>,
          [Warning_not_divisible 3 4 2 (3 / 8) 0 0, Info_micro_batch_size 4,
           Info_global_batch_size 0, Info_gradient_accumulation 0, Info_num_replicas 2])"
  by code_simp

section \<open>Properties of the checkpoint pattern\<close>

lemma length_ascii [simp]: "length (ascii s) = length s"
  by (simp add: ascii_def)

lemma match_digits_sound:
  assumes "match_digits r n = Some ds"
  shows "\<exists>k. 0 < k \<and> k \<le> n \<and> ds = take k r \<and> tail_ok (drop k r)"
  using assms
proof (induction n)
  case 0
  then show ?case by simp
next
  case (Suc n)
  show ?case
  proof (cases "tail_ok (drop (Suc n) r)")
    case True
    with Suc.prems have "ds = take (Suc n) r" by simp
    with True show ?thesis by blast
  next
    case False
    with Suc.prems have "match_digits r n = Some ds" by simp
    from Suc.IH[OF this] obtain k where "0 < k" "k \<le> n" "ds = take k r" "tail_ok (drop k r)"
      by blast
    then have "0 < k \<and> k \<le> Suc n \<and> ds = take k r \<and> tail_ok (drop k r)" by simp
    then show ?thesis by blast
  qed
qed

lemma match_digits_complete:
  assumes "0 < k" "k \<le> n" "tail_ok (drop k r)"
  shows "match_digits r n \<noteq> None"
  using assms
proof (induction n)
  case 0
  then show ?case by simp
next
  case (Suc n)
  show ?case
  proof (cases "tail_ok (drop (Suc n) r)")
    case True
    then show ?thesis by simp
  next
    case False
    with Suc.prems have "k \<noteq> Suc n" by auto
    with Suc.prems have "k \<le> n" by simp
    with Suc False show ?thesis by simp
  qed
qed

lemma tail_ok_iff:
  "tail_ok t \<longleftrightarrow> (\<exists>c rest. t = c # ascii ''index'' @ rest \<and> c \<noteq> newline)"
proof
  assume "tail_ok t"
  then obtain c r where t: "t = c # r" "c \<noteq> newline" "take 5 r = ascii ''index''"
    by (auto simp: tail_ok_def split: list.splits)
  have "r = take 5 r @ drop 5 r" by simp
  with t show "\<exists>c rest. t = c # ascii ''index'' @ rest \<and> c \<noteq> newline" by metis
next
  assume "\<exists>c rest. t = c # ascii ''index'' @ rest \<and> c \<noteq> newline"
  then show "tail_ok t" by (auto simp: tail_ok_def)
qed

lemma match_at_sound:
  assumes "match_at decimal s i = Some (g1, g2)"
  shows "\<exists>c rest. s = take i s @ ascii ''ckpt-'' @ g2 @ c # ascii ''index'' @ rest \<and> c \<noteq> newline \<and>
           g2 \<noteq> [] \<and> (\<forall>d \<in> set g2. decimal d \<noteq> None) \<and> g1 = take i s @ ascii ''ckpt-'' @ g2"
proof -
  define r where "r = drop (i + 5) s"
  from assms have lit: "take 5 (drop i s) = ascii ''ckpt-''"
    and md: "match_digits r (length (takeWhile (\<lambda>c. decimal c \<noteq> None) r)) = Some g2"
    and g1: "g1 = take i s @ ascii ''ckpt-'' @ g2"
    by (auto simp: match_at_def r_def split: if_splits option.splits)
  from match_digits_sound[OF md] obtain k where k: "0 < k" "k \<le> length (takeWhile (\<lambda>c. decimal c \<noteq> None) r)"
    "g2 = take k r" "tail_ok (drop k r)" by blast
  from k(4) obtain c rest where t: "drop k r = c # ascii ''index'' @ rest" "c \<noteq> newline"
    by (auto simp: tail_ok_iff)
  have "g2 = take k (takeWhile (\<lambda>c. decimal c \<noteq> None) r)"
  proof -
    have "take k r = take k (takeWhile (\<lambda>c. decimal c \<noteq> None) r @ dropWhile (\<lambda>c. decimal c \<noteq> None) r)" by simp
    also have "\<dots> = take k (takeWhile (\<lambda>c. decimal c \<noteq> None) r)" using k(2) by (simp only: take_append) simp
    finally show ?thesis using k(3) by simp
  qed
  then have "set g2 \<subseteq> set (takeWhile (\<lambda>c. decimal c \<noteq> None) r)" by (metis set_take_subset)
  then have dig: "\<forall>d \<in> set g2. decimal d \<noteq> None" by (auto dest: set_takeWhileD)
  have "length r \<ge> k"
    using k(2) length_takeWhile_le[of "\<lambda>c. decimal c \<noteq> None" r] by linarith
  then have ne: "g2 \<noteq> []" using k(1,3) by auto
  have "s = take i s @ drop i s" by simp
  also have "drop i s = take 5 (drop i s) @ drop 5 (drop i s)"
    by (simp only: append_take_drop_id)
  also have "drop 5 (drop i s) = r" by (simp only: r_def drop_drop add.commute)
  also have "r = take k r @ drop k r" by simp
  finally have "s = take i s @ ascii ''ckpt-'' @ g2 @ c # ascii ''index'' @ rest"
    using lit k(3) t(1) by simp
  with t(2) ne dig g1 show ?thesis by blast
qed

lemma match_from_sound:
  assumes "match_from decimal s n = Some (g1, g2)"
  shows "\<exists>i \<le> n. match_at decimal s i = Some (g1, g2)"
  using assms
proof (induction n)
  case 0
  then show ?case by simp
next
  case (Suc n)
  show ?case
  proof (cases "match_at decimal s (Suc n)")
    case None
    with Suc.prems have "match_from decimal s n = Some (g1, g2)" by simp
    from Suc.IH[OF this] obtain i where "i \<le> n" "match_at decimal s i = Some (g1, g2)" by blast
    then have "i \<le> Suc n \<and> match_at decimal s i = Some (g1, g2)" by simp
    then show ?thesis by blast
  next
    case (Some r)
    with Suc.prems show ?thesis by auto
  qed
qed

lemma match_from_complete:
  assumes "i \<le> n" "match_at decimal s i \<noteq> None"
  shows "match_from decimal s n \<noteq> None"
  using assms
proof (induction n)
  case 0
  then show ?case by simp
next
  case (Suc n)
  show ?case
  proof (cases "match_at decimal s (Suc n)")
    case None
    with Suc.prems have "i \<noteq> Suc n" by auto
    with Suc.prems have "i \<le> n" by simp
    with Suc None show ?thesis by simp
  next
    case (Some r)
    then show ?thesis by simp
  qed
qed

lemma pattern_sound:
  assumes "filename_pattern_match decimal s = Some (g1, g2)"
  shows "\<exists>pre c rest. s = pre @ ascii ''ckpt-'' @ g2 @ c # ascii ''index'' @ rest \<and>
           newline \<notin> set pre \<and> c \<noteq> newline \<and> g2 \<noteq> [] \<and> (\<forall>d \<in> set g2. decimal d \<noteq> None) \<and>
           g1 = pre @ ascii ''ckpt-'' @ g2"
proof -
  define n where "n = length (takeWhile (\<lambda>c. c \<noteq> newline) s)"
  from assms have "match_from decimal s n = Some (g1, g2)"
    by (simp add: filename_pattern_match_def n_def)
  from match_from_sound[OF this] obtain i where i: "i \<le> n" "match_at decimal s i = Some (g1, g2)"
    by blast
  have "take i s = take i (takeWhile (\<lambda>c. c \<noteq> newline) s @ dropWhile (\<lambda>c. c \<noteq> newline) s)"
    by simp
  also have "\<dots> = take i (takeWhile (\<lambda>c. c \<noteq> newline) s)"
    using i(1) by (simp only: take_append n_def) simp
  finally have "set (take i s) \<subseteq> set (takeWhile (\<lambda>c. c \<noteq> newline) s)"
    by (metis set_take_subset)
  then have "newline \<notin> set (take i s)" by (auto dest: set_takeWhileD)
  with match_at_sound[OF i(2)] show ?thesis by blast
qed


lemma pattern_complete:
  assumes s: "s = pre @ ascii ''ckpt-'' @ ds @ c # ascii ''index'' @ rest"
    and pre: "newline \<notin> set pre" and c: "c \<noteq> newline"
    and ds: "ds \<noteq> []" "\<forall>d \<in> set ds. decimal d \<noteq> None"
  shows "filename_pattern_match decimal s \<noteq> None"
proof -
  define i where "i = length pre"
  define r where "r = ds @ c # ascii ''index'' @ rest"
  have "takeWhile (\<lambda>c. c \<noteq> newline) s
      = pre @ takeWhile (\<lambda>c. c \<noteq> newline) (ascii ''ckpt-'' @ ds @ c # ascii ''index'' @ rest)"
    unfolding s using pre by (intro takeWhile_append2) auto
  then have le: "i \<le> length (takeWhile (\<lambda>c. c \<noteq> newline) s)" by (simp add: i_def)
  have dr: "drop i s = ascii ''ckpt-'' @ r" by (simp add: s i_def r_def)
  then have lit: "take 5 (drop i s) = ascii ''ckpt-''" by simp
  have "drop (i + 5) s = drop 5 (drop i s)" by (simp only: drop_drop add.commute)
  then have r5: "drop (i + 5) s = r" by (simp add: dr)
  have "takeWhile (\<lambda>c. decimal c \<noteq> None) r = ds @ takeWhile (\<lambda>c. decimal c \<noteq> None) (c # ascii ''index'' @ rest)"
    unfolding r_def using ds(2) by (intro takeWhile_append2) auto
  then have k: "length ds \<le> length (takeWhile (\<lambda>c. decimal c \<noteq> None) r)" by simp
  have "tail_ok (drop (length ds) r)" using c by (simp add: r_def tail_ok_def)
  with ds(1) k have "match_digits r (length (takeWhile (\<lambda>c. decimal c \<noteq> None) r)) \<noteq> None"
    by (intro match_digits_complete[of "length ds"]) simp_all
  then have "match_at decimal s i \<noteq> None"
    by (auto simp: match_at_def lit r5)
  with le show ?thesis
    unfolding filename_pattern_match_def by (rule match_from_complete)
qed

lemma sorted_le_last:
  fixes xs :: "int list"
  shows "sorted xs \<Longrightarrow> x \<in> set xs \<Longrightarrow> x \<le> last xs"
proof (induction xs)
  case Nil
  then show ?case by simp
next
  case (Cons y ys)
  show ?case
  proof (cases "ys = []")
    case True
    with Cons.prems show ?thesis by simp
  next
    case False
    then have l: "last (y # ys) = last ys" by simp
    have ly: "last ys \<in> set ys" using False by simp
    show ?thesis
    proof (cases "x = y")
      case True
      with Cons.prems(1) ly show ?thesis unfolding l by auto
    next
      case False
      with Cons.prems have "x \<in> set ys" "sorted ys" by auto
      with Cons.IH show ?thesis unfolding l by simp
    qed
  qed
qed

lemma last_sort_key_fst:
  fixes xs :: "(int \<times> 'a) list"
  assumes "xs \<noteq> []"
  shows "last (sort_key fst xs) \<in> set xs"
    and "\<forall>x \<in> set xs. fst x \<le> fst (last (sort_key fst xs))"
proof -
  have ne: "sort_key fst xs \<noteq> []" using assms by (metis set_sort set_empty)
  then have "last (sort_key fst xs) \<in> set (sort_key fst xs)" by (rule last_in_set)
  then show "last (sort_key fst xs) \<in> set xs" by simp
  have srt: "sorted (map fst (sort_key fst xs))" by (rule sorted_sort_key)
  show "\<forall>x \<in> set xs. fst x \<le> fst (last (sort_key fst xs))"
  proof
    fix x assume "x \<in> set xs"
    then have "fst x \<in> set (map fst (sort_key fst xs))" by simp
    from sorted_le_last[OF srt this] show "fst x \<le> fst (last (sort_key fst xs))"
      using ne by (simp add: last_map)
  qed
qed

lemma checkpoint_tuples_set:
  "set (checkpoint_tuples decimal logs_path listing) =
     {(int_of_digits decimal g2, path_join logs_path g1) | name g1 g2.
        name \<in> set listing \<and> filename_pattern_match decimal name = Some (g1, g2)}"
  by (force simp: checkpoint_tuples_def Let_def image_iff)




text \<open>
  Claim C7. A name of the listing matches the pattern exactly when it reads
  \<open><prefix>ckpt-<digits><one code point>index<anything>\<close> with no newline before
  \<open>index\<close>, the digits being Unicode decimal digits. When restoring and some name matches,
  worker 0 restores from the path of a match (the logs path joined with the name up to the
  end of its digits) whose step, the digits read as a number, is the largest among all
  matches, and the iteration counter becomes that step; when no name matches, taking the
  last of the empty list raises \<open>IndexError\<close>. Another worker reads no checkpoint and
  starts its counter at 0.
\<close>

theorem restore_latest_checkpoint:
  "(filename_pattern_match decimal name \<noteq> None \<longleftrightarrow>
      (\<exists>pre ds c rest. name = pre @ ascii ''ckpt-'' @ ds @ c # ascii ''index'' @ rest \<and>
         newline \<notin> set pre \<and> c \<noteq> newline \<and> ds \<noteq> [] \<and> (\<forall>d \<in> set ds. decimal d \<noteq> None)))
   \<and> ((\<exists>n \<in> set listing. filename_pattern_match decimal n \<noteq> None) \<longrightarrow>
        (\<exists>n pre ds c rest. n \<in> set listing \<and>
           n = pre @ ascii ''ckpt-'' @ ds @ c # ascii ''index'' @ rest \<and>
           ds \<noteq> [] \<and> (\<forall>d \<in> set ds. decimal d \<noteq> None) \<and>
           filename_pattern_match decimal n = Some (pre @ ascii ''ckpt-'' @ ds, ds) \<and>
           restore_iteration decimal True 0 logs_path listing =
             Inr (int_of_digits decimal ds,
                  Some (path_join logs_path (pre @ ascii ''ckpt-'' @ ds))) \<and>
           (\<forall>n' g1' g2'. n' \<in> set listing \<and>
                filename_pattern_match decimal n' = Some (g1', g2')
              \<longrightarrow> int_of_digits decimal g2' \<le> int_of_digits decimal ds)))
   \<and> ((\<forall>n \<in> set listing. filename_pattern_match decimal n = None) \<longrightarrow>
        restore_iteration decimal True 0 logs_path listing = Inl IndexError)
   \<and> (w \<noteq> 0 \<longrightarrow> restore_iteration decimal True w logs_path listing = Inr (0, None))"
proof (intro conjI impI)
  show "filename_pattern_match decimal name \<noteq> None \<longleftrightarrow>
      (\<exists>pre ds c rest. name = pre @ ascii ''ckpt-'' @ ds @ c # ascii ''index'' @ rest \<and>
         newline \<notin> set pre \<and> c \<noteq> newline \<and> ds \<noteq> [] \<and> (\<forall>d \<in> set ds. decimal d \<noteq> None))"
  proof
    assume "filename_pattern_match decimal name \<noteq> None"
    then obtain g1 g2 where "filename_pattern_match decimal name = Some (g1, g2)" by auto
    from pattern_sound[OF this] show "\<exists>pre ds c rest.
        name = pre @ ascii ''ckpt-'' @ ds @ c # ascii ''index'' @ rest \<and>
        newline \<notin> set pre \<and> c \<noteq> newline \<and> ds \<noteq> [] \<and> (\<forall>d \<in> set ds. decimal d \<noteq> None)"
      by blast
  next
    assume "\<exists>pre ds c rest. name = pre @ ascii ''ckpt-'' @ ds @ c # ascii ''index'' @ rest \<and>
         newline \<notin> set pre \<and> c \<noteq> newline \<and> ds \<noteq> [] \<and> (\<forall>d \<in> set ds. decimal d \<noteq> None)"
    then show "filename_pattern_match decimal name \<noteq> None"
      using pattern_complete by blast
  qed
next
  assume "\<exists>n \<in> set listing. filename_pattern_match decimal n \<noteq> None"
  then obtain n0 a0 b0 where n0: "n0 \<in> set listing"
    "filename_pattern_match decimal n0 = Some (a0, b0)"
    by auto
  define ts where "ts = checkpoint_tuples decimal logs_path listing"
  have tset: "set ts = {(int_of_digits decimal g2, path_join logs_path g1) | n g1 g2.
        n \<in> set listing \<and> filename_pattern_match decimal n = Some (g1, g2)}"
    unfolding ts_def by (rule checkpoint_tuples_set)
  with n0 have "(int_of_digits decimal b0, path_join logs_path a0) \<in> set ts" by blast
  then have ne: "ts \<noteq> []" by auto
  then have sne: "sort_key fst ts \<noteq> []" by (metis set_sort set_empty)
  define t where "t = last (sort_key fst ts)"
  have tin: "t \<in> set ts" and tmax: "\<forall>x \<in> set ts. fst x \<le> fst t"
    unfolding t_def using last_sort_key_fst[OF ne] by blast+
  from tin obtain n g1 g2 where n: "n \<in> set listing"
    "filename_pattern_match decimal n = Some (g1, g2)"
    "t = (int_of_digits decimal g2, path_join logs_path g1)"
    unfolding tset by blast
  from pattern_sound[OF n(2)] obtain pre c rest where
    shape: "n = pre @ ascii ''ckpt-'' @ g2 @ c # ascii ''index'' @ rest"
      "g2 \<noteq> []" "\<forall>d \<in> set g2. decimal d \<noteq> None" "g1 = pre @ ascii ''ckpt-'' @ g2"
    by blast
  have res: "restore_iteration decimal True 0 logs_path listing =
      Inr (int_of_digits decimal g2, Some (path_join logs_path g1))"
    using sne n(3) by (simp add: restore_iteration_def restore_latest_def Let_def
        ts_def[symmetric] t_def[symmetric])
  have mx: "\<forall>n' g1' g2'. n' \<in> set listing \<and>
                filename_pattern_match decimal n' = Some (g1', g2')
              \<longrightarrow> int_of_digits decimal g2' \<le> int_of_digits decimal g2"
  proof (intro allI impI)
    fix n' g1' g2'
    assume "n' \<in> set listing \<and> filename_pattern_match decimal n' = Some (g1', g2')"
    then have "(int_of_digits decimal g2', path_join logs_path g1') \<in> set ts"
      unfolding tset by blast
    with tmax have "fst (int_of_digits decimal g2', path_join logs_path g1') \<le> fst t" by blast
    then show "int_of_digits decimal g2' \<le> int_of_digits decimal g2" by (simp add: n(3))
  qed
  from n(1) shape n(2) res mx
  show "\<exists>n pre ds c rest. n \<in> set listing \<and>
           n = pre @ ascii ''ckpt-'' @ ds @ c # ascii ''index'' @ rest \<and>
           ds \<noteq> [] \<and> (\<forall>d \<in> set ds. decimal d \<noteq> None) \<and>
           filename_pattern_match decimal n = Some (pre @ ascii ''ckpt-'' @ ds, ds) \<and>
           restore_iteration decimal True 0 logs_path listing =
             Inr (int_of_digits decimal ds,
                  Some (path_join logs_path (pre @ ascii ''ckpt-'' @ ds))) \<and>
           (\<forall>n' g1' g2'. n' \<in> set listing \<and>
                filename_pattern_match decimal n' = Some (g1', g2')
              \<longrightarrow> int_of_digits decimal g2' \<le> int_of_digits decimal ds)"
    by (intro exI[of _ n] exI[of _ pre] exI[of _ g2] exI[of _ c] exI[of _ rest]) simp
next
  assume none: "\<forall>n \<in> set listing. filename_pattern_match decimal n = None"
  have "set (checkpoint_tuples decimal logs_path listing) = {}"
    unfolding checkpoint_tuples_set using none by auto
  then have "checkpoint_tuples decimal logs_path listing = []" by simp
  then show "restore_iteration decimal True 0 logs_path listing = Inl IndexError"
    by (simp add: restore_iteration_def restore_latest_def)
next
  assume "w \<noteq> 0"
  then show "restore_iteration decimal True w logs_path listing = Inr (0, None)"
    by (simp add: restore_iteration_def)
qed

theorem restore_latest_checkpoint_witness:
  "filename_pattern_match decimal_fragment (ascii ''model.ckpt-'' @ [1635] @ ascii ''.index'')
     = Some (ascii ''model.ckpt-'' @ [1635], [1635])
   \<and> filename_pattern_match decimal_fragment (ascii ''model.ckpt-1'' @ [233] @ ascii ''index'')
     = Some (ascii ''model.ckpt-1'', ascii ''1'')
   \<and> restore_iteration decimal_fragment True 0 (ascii ''logs'')
        [ascii ''model.ckpt-2.index'', ascii ''model.ckpt-'' @ [1635] @ ascii ''.index'',
         ascii ''checkpoint'', ascii ''model.ckpt-1'' @ [233] @ ascii ''index'']
       = Inr (3, Some (ascii ''logs/model.ckpt-'' @ [1635]))
   \<and> (\<exists>n pre ds c rest.
         n \<in> set [ascii ''model.ckpt-2.index'', ascii ''model.ckpt-'' @ [1635] @ ascii ''.index'',
                  ascii ''checkpoint'', ascii ''model.ckpt-1'' @ [233] @ ascii ''index''] \<and>
         n = pre @ ascii ''ckpt-'' @ ds @ c # ascii ''index'' @ rest \<and>
         restore_iteration decimal_fragment True 0 (ascii ''logs'')
           [ascii ''model.ckpt-2.index'', ascii ''model.ckpt-'' @ [1635] @ ascii ''.index'',
            ascii ''checkpoint'', ascii ''model.ckpt-1'' @ [233] @ ascii ''index'']
          = Inr (int_of_digits decimal_fragment ds,
                 Some (path_join (ascii ''logs'') (pre @ ascii ''ckpt-'' @ ds))))
   \<and> restore_iteration decimal_fragment True 0 (ascii ''logs'') [ascii ''checkpoint'']
       = Inl IndexError
   \<and> restore_iteration decimal_fragment True 1 (ascii ''logs'')
        [ascii ''model.ckpt-2.index'', ascii ''model.ckpt-'' @ [1635] @ ascii ''.index'',
         ascii ''checkpoint'', ascii ''model.ckpt-1'' @ [233] @ ascii ''index'']
       = Inr (0, None)"
proof -
  define L where "L = [ascii ''model.ckpt-2.index'',
    ascii ''model.ckpt-'' @ [1635] @ ascii ''.index'',
    ascii ''checkpoint'', ascii ''model.ckpt-1'' @ [233] @ ascii ''index'']"
  define a where "a = ascii ''model.ckpt-'' @ [1635] @ ascii ''.index''"
  note t = restore_latest_checkpoint
  have m: "filename_pattern_match decimal_fragment a = Some (ascii ''model.ckpt-'' @ [1635], [1635])"
    unfolding a_def by code_simp
  have m2: "filename_pattern_match decimal_fragment (ascii ''model.ckpt-1'' @ [233] @ ascii ''index'')
     = Some (ascii ''model.ckpt-1'', ascii ''1'')"
    by code_simp
  have "a \<in> set L" by (simp add: L_def a_def)
  with m have h: "\<exists>n \<in> set L. filename_pattern_match decimal_fragment n \<noteq> None" by force
  have e: "restore_iteration decimal_fragment True 0 (ascii ''logs'') L
      = Inr (3, Some (ascii ''logs/model.ckpt-'' @ [1635]))"
    unfolding L_def by code_simp
  have "filename_pattern_match decimal_fragment (ascii ''checkpoint'') = None" by code_simp
  then have h0: "\<forall>n \<in> set [ascii ''checkpoint'']. filename_pattern_match decimal_fragment n = None"
    by simp
  have one: "(1::int) \<noteq> 0" by simp
  from t[of decimal_fragment a L "ascii ''logs''" 1] h one
  have w1: "\<exists>n pre ds c rest. n \<in> set L \<and>
         n = pre @ ascii ''ckpt-'' @ ds @ c # ascii ''index'' @ rest \<and>
         restore_iteration decimal_fragment True 0 (ascii ''logs'') L
          = Inr (int_of_digits decimal_fragment ds,
                 Some (path_join (ascii ''logs'') (pre @ ascii ''ckpt-'' @ ds)))"
    and w2: "restore_iteration decimal_fragment True 1 (ascii ''logs'') L = Inr (0, None)"
    by blast+
  from t[of decimal_fragment a "[ascii ''checkpoint'']" "ascii ''logs''" 1] h0
  have w3: "restore_iteration decimal_fragment True 0 (ascii ''logs'') [ascii ''checkpoint'']
       = Inl IndexError"
    by blast
  from m m2 e w1 w2 w3 show ?thesis unfolding L_def a_def by blast
qed

section \<open>Properties of the training loop\<close>

lemma run_training_step_ok:
  "step_outcome = Inr r \<Longrightarrow> \<exists>r'. run_training_step step_outcome pipeline lr_scale = Inr r'"
  by (cases r) (simp add: run_training_step_def)

text \<open>
  Claim C8. When a call of \<open>training_step\<close> in the training loop raises an \<open>OpError\<close>,
  whatever its code, after any number of steps that succeeded, the loop ends with a
  \<open>ResourceExhaustedError\<close> carrying the node definition, the operation and the message
  of the error caught. The failing call is the last call of \<open>training_step\<close>: the step is
  not tried again and no later step is run.
\<close>

theorem op_error_ends_training:
  assumes "\<forall>k<n. \<exists>r. training_step (c0 + k) = Inr r"
    and "\<forall>k\<le>n. i0 + int k * iterations_per_step < iterations"
    and "training_step (c0 + n) = Inl (OpError code node_def op message)"
  shows "training_loop training_step pipeline lr_scale iterations_per_step iterations i0 c0 =
           Some (Inl (OpError RESOURCE_EXHAUSTED node_def op message), c0 + n + 1)"
  using assms
proof (induction n arbitrary: i0 c0)
  case 0
  then have "i0 < iterations" by simp
  with 0 show ?case
    by (subst training_loop.simps)
       (simp add: run_training_step_def ResourceExhaustedError_def)
next
  case (Suc n)
  from Suc.prems(2) have lt: "i0 < iterations" by force
  from Suc.prems(1) obtain r where "training_step c0 = Inr r" by force
  then obtain r' where r': "run_training_step (training_step c0) pipeline lr_scale = Inr r'"
    using run_training_step_ok by blast
  have a: "\<forall>k<n. \<exists>r. training_step (Suc c0 + k) = Inr r"
  proof (intro allI impI)
    fix k assume "k < n"
    then have "Suc k < Suc n" by simp
    with Suc.prems(1) have "\<exists>r. training_step (c0 + Suc k) = Inr r" by blast
    then show "\<exists>r. training_step (Suc c0 + k) = Inr r" by simp
  qed
  have b: "\<forall>k\<le>n. (i0 + iterations_per_step) + int k * iterations_per_step < iterations"
  proof (intro allI impI)
    fix k assume "k \<le> n"
    then have "Suc k \<le> Suc n" by simp
    with Suc.prems(2) have "i0 + int (Suc k) * iterations_per_step < iterations" by blast
    then show "(i0 + iterations_per_step) + int k * iterations_per_step < iterations"
      by (simp add: algebra_simps)
  qed
  have c: "training_step (Suc c0 + n) = Inl (OpError code node_def op message)"
    using Suc.prems(3) by simp
  from Suc.IH[OF a b c]
  have "training_loop training_step pipeline lr_scale iterations_per_step iterations
          (i0 + iterations_per_step) (Suc c0) =
        Some (Inl (OpError RESOURCE_EXHAUSTED node_def op message), Suc c0 + n + 1)" .
  with lt r' show ?case
    by (subst training_loop.simps) simp
qed

theorem op_error_ends_training_witness:
  "training_loop
     (\<lambda>k. if k < 2 then Inr ((), (), (), 1 :: int)
          else Inl (OpError INTERNAL ''node'' ''op'' ''out of memory''))
     False 1 5 100 0 0 =
   Some (Inl (OpError RESOURCE_EXHAUSTED ''node'' ''op'' ''out of memory''), 3)"
proof -
  define step :: "nat \<Rightarrow> (string, string) exn + unit \<times> unit \<times> unit \<times> int" where
    "step = (\<lambda>k. if k < 2 then Inr ((), (), (), 1)
          else Inl (OpError INTERNAL ''node'' ''op'' ''out of memory''))"
  have a: "\<forall>k<2. \<exists>r. step (0 + k) = Inr r" by (simp add: step_def)
  have b: "\<forall>k\<le>2. 0 + int k * 5 < (100::int)" by auto
  have c: "step (0 + 2) = Inl (OpError INTERNAL ''node'' ''op'' ''out of memory'')"
    by (simp add: step_def)
  from op_error_ends_training[OF a b c, of False 1]
  show ?thesis by (simp add: step_def)
qed

end
